theory Spec2Isabelle
  imports Complex_Main "HOL-Library.List_Lexorder" "HOL-Library.AList"
begin

section \<open>Strings\<close>

text \<open>
  A Python \<^verbatim>\<open>str\<close> is a sequence of Unicode code points, and \<^verbatim>\<open>len\<close> counts code
  points. The stop words and the token class of \<^verbatim>\<open>SearchIndex._tokenize\<close> contain Hangul
  syllables, so a string is a list of code points (natural numbers), not of bytes.
\<close>

type_synonym ustr = "nat list"
type_synonym path = ustr

text \<open>ASCII text for the examples: \<open>u ''a.txt''\<close> is the code points of the literal.\<close>

definition u :: "string \<Rightarrow> ustr" where
  "u s = map of_char s"

text \<open>
  \<^verbatim>\<open>str.isspace\<close>, which is also the class \<^verbatim>\<open>\s\<close> of a \<^verbatim>\<open>str\<close> pattern and the
  separator set of \<^verbatim>\<open>str.split()\<close> and \<^verbatim>\<open>str.strip()\<close>.
\<close>

definition is_space :: "nat \<Rightarrow> bool" where
  "is_space c \<longleftrightarrow>
     (9 \<le> c \<and> c \<le> 13) \<or> (28 \<le> c \<and> c \<le> 32) \<or> c = 133 \<or> c = 160 \<or> c = 5760 \<or>
     (8192 \<le> c \<and> c \<le> 8202) \<or> c = 8232 \<or> c = 8233 \<or> c = 8239 \<or> c = 8287 \<or> c = 12288"

text \<open>
  \<^verbatim>\<open>str.lower\<close>, code point by code point. ASCII capitals move to their small letters;
  U+0130 lowers to the two code points U+0069 U+0307 and U+212A (Kelvin sign) to \<^verbatim>\<open>k\<close>.
  These are all the code points whose lowercase form contains a character of the class
  \<^verbatim>\<open>[U+AC00-U+D7A3 a-z A-Z 0-9 \s]\<close> that the pattern of \<^verbatim>\<open>_tokenize\<close> keeps;
  every other cased code point lies outside that class before and after lowering,
  \<^verbatim>\<open>_tokenize\<close> blanks it either way and no token contains it, so it is left in
  place here.
\<close>

definition lower_cp :: "nat \<Rightarrow> ustr" where
  "lower_cp c =
     (if 65 \<le> c \<and> c \<le> 90 then [c + 32]
      else if c = 304 then [105, 775]
      else if c = 8490 then [107]
      else [c])"

definition lower :: "ustr \<Rightarrow> ustr" where
  "lower s = concat (map lower_cp s)"

text \<open>The characters that the pattern of \<^verbatim>\<open>_tokenize\<close> does not replace: the Hangul
  syllables U+AC00 to U+D7A3, ASCII letters and digits, and white space.\<close>

definition kept :: "nat \<Rightarrow> bool" where
  "kept c \<longleftrightarrow>
     (44032 \<le> c \<and> c \<le> 55203) \<or> (97 \<le> c \<and> c \<le> 122) \<or> (65 \<le> c \<and> c \<le> 90) \<or>
     (48 \<le> c \<and> c \<le> 57) \<or> is_space c"

definition blank_others :: "ustr \<Rightarrow> ustr" where
  "blank_others s = map (\<lambda>c. if kept c then c else 32) s"

text \<open>
  \<^verbatim>\<open>str.split()\<close> without arguments: maximal runs of non-space characters, no empty
  word. \<open>cur\<close> is the word being read.
\<close>

fun words_from :: "ustr \<Rightarrow> ustr \<Rightarrow> ustr list" where
  "words_from cur [] = (if cur = [] then [] else [cur])"
| "words_from cur (c # cs) =
     (if is_space c then (if cur = [] then words_from [] cs else cur # words_from [] cs)
      else words_from (cur @ [c]) cs)"

definition split_ws :: "ustr \<Rightarrow> ustr list" where
  "split_ws s = words_from [] s"

definition strip :: "ustr \<Rightarrow> ustr" where
  "strip s = rev (dropWhile is_space (rev (dropWhile is_space s)))"

text \<open>\<^verbatim>\<open>s.startswith(p)\<close> and \<^verbatim>\<open>sub in s\<close>.\<close>

fun startswith :: "ustr \<Rightarrow> ustr \<Rightarrow> bool" where
  "startswith s [] = True"
| "startswith [] (p # ps) = False"
| "startswith (c # s) (p # ps) = (c = p \<and> startswith s ps)"

fun contains :: "ustr \<Rightarrow> ustr \<Rightarrow> bool" where
  "contains [] sub = (sub = [])"
| "contains (c # s) sub = (startswith (c # s) sub \<or> contains s sub)"

text \<open>\<^verbatim>\<open>os.path.basename\<close> of \<^verbatim>\<open>posixpath\<close>: what follows the last slash.\<close>

fun basename :: "path \<Rightarrow> ustr" where
  "basename [] = []"
| "basename (c # cs) = (if 47 \<in> set (c # cs) then basename cs else c # cs)"

section \<open>The tokenizer\<close>

definition korean_stop_words :: "ustr list" where
  "korean_stop_words =
     [[51060], [44536], [51200], [44163], [51032], [44032], [51012], [47484], [50640],
      [50640, 49436], [47196], [51004, 47196], [51008], [45716], [51060, 45796],
      [51080, 45796], [54616, 45796], [46104, 45796], [49688], [46321], [48143],
      [46608, 45716], [44536, 47532, 44256], [54616, 51648, 47564], [44536, 47084, 45208],
      [46384, 46972, 49436], [44536, 47000, 49436]]"

definition english_stop_words :: "ustr list" where
  "english_stop_words =
     map u [''a'', ''an'', ''and'', ''are'', ''as'', ''at'', ''be'', ''by'', ''for'', ''from'',
            ''has'', ''he'', ''in'', ''is'', ''it'', ''its'', ''of'', ''on'', ''that'', ''the'',
            ''to'', ''was'', ''will'', ''with'', ''or'', ''but'', ''if'', ''this'', ''they'']"

definition stop_words :: "ustr set" where
  "stop_words = set korean_stop_words \<union> set english_stop_words"

text \<open>The words of a text before the length and stop-word filter.\<close>

definition raw_words :: "ustr \<Rightarrow> ustr list" where
  "raw_words text = split_ws (blank_others (lower text))"

definition tokenize :: "ustr \<Rightarrow> ustr list" where
  "tokenize text = filter (\<lambda>token. length token \<ge> 2 \<and> token \<notin> stop_words) (raw_words text)"

section \<open>The inverted index\<close>

datatype ftype = Pdf | Image | Excel | Word | Powerpoint | Text

text \<open>
  The metadata dictionary handed to \<^verbatim>\<open>add_file\<close>: the keys the indexer reads. The
  other keys of \<^verbatim>\<open>FileManager.get_file_info\<close> are stored along and never read.
\<close>

record metadata =
  file_type :: "ftype option"
  file_size_mb :: rat
  supported :: bool

text \<open>A value of the \<^verbatim>\<open>file_info\<close> dictionary; a \<^verbatim>\<open>datetime\<close> is a timestamp.\<close>

type_synonym time = nat

record file_entry =
  meta :: metadata
  indexed_time :: time
  content_preview :: ustr
  full_content :: ustr

record search_index =
  index :: "ustr \<rightharpoonup> path set"
  file_info :: "path \<rightharpoonup> file_entry"

definition empty_index :: search_index where
  "empty_index = \<lparr>index = Map.empty, file_info = Map.empty\<rparr>"

text \<open>
  \<^verbatim>\<open>remove_file\<close>: the metadata entry goes; every postings set that holds the path loses
  it, and a token whose set becomes empty is deleted. A set that does not hold the path
  is not touched, empty or not.
\<close>

definition remove_file :: "path \<Rightarrow> search_index \<Rightarrow> search_index" where
  "remove_file file_path idx =
     \<lparr>index = (\<lambda>token. case index idx token of
                  None \<Rightarrow> None
                | Some file_paths \<Rightarrow>
                    if file_path \<in> file_paths
                    then (if file_paths - {file_path} = {} then None
                          else Some (file_paths - {file_path}))
                    else Some file_paths),
      file_info = (file_info idx)(file_path := None)\<rparr>"

text \<open>\<^verbatim>\<open>self.index[token].add(file_path)\<close> on a \<^verbatim>\<open>defaultdict(set)\<close>.\<close>

definition add_posting :: "path \<Rightarrow> ustr \<Rightarrow> (ustr \<rightharpoonup> path set) \<Rightarrow> (ustr \<rightharpoonup> path set)" where
  "add_posting file_path token m =
     m(token \<mapsto> insert file_path (case m token of None \<Rightarrow> {} | Some s \<Rightarrow> s))"

text \<open>
  \<^verbatim>\<open>add_file\<close>; \<open>now\<close> is the reading of \<^verbatim>\<open>datetime.now()\<close>. The loop runs over
  \<^verbatim>\<open>set(tokens)\<close>; its effect does not depend on the order.
\<close>

definition add_file :: "time \<Rightarrow> path \<Rightarrow> ustr \<Rightarrow> metadata \<Rightarrow> search_index \<Rightarrow> search_index" where
  "add_file now file_path content info idx =
     (let idx1 = remove_file file_path idx;
          infos = (file_info idx1)(file_path \<mapsto>
                     \<lparr>meta = info, indexed_time = now,
                      content_preview = take 200 content, full_content = content\<rparr>);
          all_content = basename file_path @ [32] @ content;
          tokens = tokenize all_content
      in \<lparr>index = fold (add_posting file_path) (remdups tokens) (index idx1),
          file_info = infos\<rparr>)"

text \<open>
  One element of the list that \<^verbatim>\<open>search\<close> returns. The preview text
  (\<^verbatim>\<open>_highlight_matches\<close>) is left out: nothing below reads it.
\<close>

record search_result =
  r_file_path :: path
  r_filename :: ustr
  r_file_type :: "ftype option"
  r_file_size_mb :: rat
  r_indexed_time :: time
  relevance_score :: rat

text \<open>The set read by \<^verbatim>\<open>self.index[token]\<close> under the guard \<^verbatim>\<open>token in self.index\<close>.\<close>

definition postings :: "search_index \<Rightarrow> ustr \<Rightarrow> path set" where
  "postings idx token = (case index idx token of None \<Rightarrow> {} | Some s \<Rightarrow> s)"

text \<open>The candidate set of one query token: the exact postings and those of every
  indexed token that starts with or contains it.\<close>

definition matching_files :: "search_index \<Rightarrow> ustr \<Rightarrow> path set" where
  "matching_files idx token =
     postings idx token \<union>
     (\<Union>indexed_token \<in> {t \<in> dom (index idx). startswith t token \<or> contains t token}.
        postings idx indexed_token)"

text \<open>
  \<^verbatim>\<open>_calculate_relevance\<close>. Scores are Python floats; they are modelled by exact
  rationals, so rounding is not part of the model.
\<close>

definition score_step :: "search_index \<Rightarrow> ustr \<Rightarrow> ustr \<Rightarrow> rat \<Rightarrow> rat" where
  "score_step idx filename token score =
     (let score1 = (if contains filename token then score + 2 else score)
      in case index idx token of
           None \<Rightarrow> score1
         | Some s \<Rightarrow> if card s > 0 then score1 + 1 / of_nat (card s) else score1)"

definition calculate_relevance :: "search_index \<Rightarrow> path \<Rightarrow> ustr list \<Rightarrow> rat" where
  "calculate_relevance idx file_path query_tokens =
     (if file_path \<notin> dom (file_info idx) then 0
      else fold (score_step idx (lower (basename file_path))) query_tokens 0)"

text \<open>The slice \<^verbatim>\<open>xs[:n]\<close>; a negative \<open>n\<close> drops the last \<open>- n\<close> elements.\<close>

definition slice_to :: "int \<Rightarrow> 'a list \<Rightarrow> 'a list" where
  "slice_to n xs = (if 0 \<le> n then take (nat n) xs else take (length xs - nat (- n)) xs)"

text \<open>
  The candidate list of \<^verbatim>\<open>search\<close>, before scoring. \<open>to_list\<close> is \<^verbatim>\<open>list(s)\<close> on a
  set: Python fixes no order, so the order is a parameter. The query has at least one
  token here (\<^verbatim>\<open>search\<close> has returned otherwise).
\<close>

definition candidate_files ::
  "(path set \<Rightarrow> path list) \<Rightarrow> search_index \<Rightarrow> ustr list \<Rightarrow> int \<Rightarrow> path list" where
  "candidate_files to_list idx query_tokens max_results =
     (let token_results = map (matching_files idx) query_tokens;
          and_files = fold (\<lambda>token_result acc. acc \<inter> token_result)
                        (tl token_results) (hd token_results);
          result_files =
            (if int (card and_files) < max_results div 2
             then (let or_results = fold (\<lambda>token_result acc. acc \<union> token_result) token_results {}
                   in to_list and_files @ to_list (or_results - and_files))
             else to_list and_files)
      in slice_to max_results result_files)"

definition make_result :: "search_index \<Rightarrow> ustr list \<Rightarrow> path \<Rightarrow> file_entry \<Rightarrow> search_result" where
  "make_result idx query_tokens file_path fi =
     \<lparr>r_file_path = file_path, r_filename = basename file_path,
      r_file_type = file_type (meta fi), r_file_size_mb = file_size_mb (meta fi),
      r_indexed_time = indexed_time fi,
      relevance_score = calculate_relevance idx file_path query_tokens\<rparr>"

text \<open>The candidates that have metadata, in candidate order.\<close>

definition build_results :: "search_index \<Rightarrow> ustr list \<Rightarrow> path list \<Rightarrow> search_result list" where
  "build_results idx query_tokens result_files =
     concat (map (\<lambda>file_path. case file_info idx file_path of
                                  None \<Rightarrow> []
                                | Some fi \<Rightarrow> [make_result idx query_tokens file_path fi])
                 result_files)"

text \<open>
  \<^verbatim>\<open>search\<close>. \<^verbatim>\<open>list.sort(key=..., reverse=True)\<close> is a stable sort into descending
  order of the key. The index is only read (every \<^verbatim>\<open>self.index[...]\<close> is guarded by a
  membership test, so the \<^verbatim>\<open>defaultdict\<close> creates no entry); the state is returned
  with the results.
\<close>

definition search ::
  "(path set \<Rightarrow> path list) \<Rightarrow> ustr \<Rightarrow> int \<Rightarrow> search_index \<Rightarrow> search_result list \<times> search_index" where
  "search to_list query max_results idx =
     (if strip query = [] then ([], idx)
      else let query_tokens = tokenize query in
        if query_tokens = [] then ([], idx)
        else let result_files = candidate_files to_list idx query_tokens max_results;
                 search_results = build_results idx query_tokens result_files
             in (sort_key (\<lambda>r. - relevance_score r) search_results, idx))"

text \<open>
  Two invariants of the index, and the states the two mutating operations reach from the
  empty index. \<open>reaches given idx\<close> also records, for every path that is indexed in
  \<open>idx\<close>, the content that its most recent \<^verbatim>\<open>add_file\<close> was given.
\<close>

definition no_empty_postings :: "search_index \<Rightarrow> bool" where
  "no_empty_postings idx \<longleftrightarrow> (\<forall>token s. index idx token = Some s \<longrightarrow> s \<noteq> {})"

definition postings_have_info :: "search_index \<Rightarrow> bool" where
  "postings_have_info idx \<longleftrightarrow> (\<forall>token s. index idx token = Some s \<longrightarrow> s \<subseteq> dom (file_info idx))"

inductive reaches :: "(path \<rightharpoonup> ustr) \<Rightarrow> search_index \<Rightarrow> bool" where
  reaches_empty: "reaches Map.empty empty_index"
| reaches_add: "reaches given idx \<Longrightarrow> reaches (given(file_path \<mapsto> content)) (add_file now file_path content info idx)"
| reaches_remove: "reaches given idx \<Longrightarrow> reaches (given(file_path := None)) (remove_file file_path idx)"


text \<open>A metadata dictionary for the examples.\<close>

definition meta0 :: metadata where
  "meta0 = \<lparr>file_type = Some Text, file_size_mb = 0, supported = True\<rparr>"


text \<open>
  Names for the statements about \<^verbatim>\<open>search\<close>: the intersection and the union of the
  per-token candidate sets, and what is assumed of the order in which \<^verbatim>\<open>list(s)\<close>
  enumerates a set.
\<close>

definition and_matches :: "search_index \<Rightarrow> ustr list \<Rightarrow> path set" where
  "and_matches idx query_tokens = (\<Inter>token\<in>set query_tokens. matching_files idx token)"

definition or_matches :: "search_index \<Rightarrow> ustr list \<Rightarrow> path set" where
  "or_matches idx query_tokens = (\<Union>token\<in>set query_tokens. matching_files idx token)"


text \<open>
  An index of two files for the examples: \<^verbatim>\<open>/d/x1.txt\<close> with the text
  \<^verbatim>\<open>apple banana cherry\<close> and \<^verbatim>\<open>/d/apple_banana.txt\<close> with the text \<^verbatim>\<open>date\<close>.
\<close>

definition file_a :: path where
  "file_a = u ''/d/x1.txt''"

definition file_b :: path where
  "file_b = u ''/d/apple_banana.txt''"

definition index_ab :: search_index where
  "index_ab = add_file 2 file_b (u ''date'') meta0
                (add_file 1 file_a (u ''apple banana cherry'') meta0 empty_index)"

text \<open>
  The relevance score in the words of the specification, for the comparison with
  \<^verbatim>\<open>_calculate_relevance\<close>: 2.0 once if any query token is a substring of the lowercased
  file name, plus \<open>1 / frequency\<close> for each query token that occurs in the content of the
  file, the frequency being the number of files that hold the token.
\<close>

definition spec_relevance :: "search_index \<Rightarrow> path \<Rightarrow> ustr list \<Rightarrow> rat" where
  "spec_relevance idx file_path query_tokens =
     (if \<exists>token\<in>set query_tokens. contains (lower (basename file_path)) token then 2 else 0) +
     (\<Sum>token\<leftarrow>filter (\<lambda>token. \<exists>fi. file_info idx file_path = Some fi \<and>
                                   token \<in> set (tokenize (full_content fi))) query_tokens.
        1 / of_nat (card (postings idx token)))"

section \<open>The indexer and its cache\<close>

text \<open>
  What \<^verbatim>\<open>SearchIndexer\<close> observes of its surroundings during one run: the file system
  (\<^verbatim>\<open>os.path.exists\<close>, \<^verbatim>\<open>os.stat\<close>, the files that \<^verbatim>\<open>os.walk\<close> and \<^verbatim>\<open>os.listdir\<close>
  yield, joined with their directory), the path functions of \<^verbatim>\<open>os.path\<close>, the digest
  \<^verbatim>\<open>md5(f"{mtime}_{size}_{path}")\<close>, the \<^verbatim>\<open>FileManager\<close> (the extraction provider), and the
  order in which Python enumerates a set. \<open>normalize\<close> is
  \<^verbatim>\<open>normcase(normpath(realpath(p)))\<close>.
\<close>

record world =
  path_exists :: "path \<Rightarrow> bool"
  stat_of :: "path \<Rightarrow> (nat \<times> nat) option"
  digest :: "nat \<times> nat \<Rightarrow> path \<Rightarrow> ustr"
  walk_files :: "path \<Rightarrow> path list"
  list_files :: "path \<Rightarrow> path list"
  normalize :: "path \<Rightarrow> path"
  dirname :: "path \<Rightarrow> path"
  relpath :: "path \<Rightarrow> path \<Rightarrow> path"
  get_file_type :: "path \<Rightarrow> ftype option"
  get_file_info :: "path \<Rightarrow> metadata"
  extract_text :: "path \<Rightarrow> ustr"
  set_order :: "path set \<Rightarrow> path list"

text \<open>
  The cache document \<^verbatim>\<open>.file_index.json\<close>, as \<^verbatim>\<open>save_index_to_cache\<close> writes it: the
  members of \<^verbatim>\<open>files\<close> in the order of the file, every entry with its seven keys. The
  sidecar \<^verbatim>\<open>.index_metadata.json\<close> is never read back and is left out.
\<close>

record cache_entry =
  c_content :: ustr
  c_title :: ustr
  c_size :: rat
  c_modified :: time
  c_type :: "ftype option"
  c_file_hash :: ustr
  c_full_path :: path

record cache_doc =
  files :: "(path \<times> cache_entry) list"
  last_indexed :: time
  total_files :: nat
  index_version :: ustr

text \<open>
  The state of a \<^verbatim>\<open>SearchIndexer\<close>. \<open>extracted\<close> is not a field of the class: it logs
  the calls of \<^verbatim>\<open>extract_text\<close>, in order, so that a statement can count them.
\<close>

record indexer =
  sindex :: search_index
  indexed_paths :: "path set"
  stop_indexing :: bool
  cache_directory :: "path option"
  extracted :: "path list"

definition new_indexer :: indexer where
  "new_indexer = \<lparr>sindex = empty_index, indexed_paths = {}, stop_indexing = False,
                   cache_directory = None, extracted = []\<rparr>"

text \<open>The cache files on disk: the document stored in each directory, if any.\<close>

type_synonym disk = "path \<rightharpoonup> cache_doc"

definition get_file_hash :: "world \<Rightarrow> path \<Rightarrow> ustr" where
  "get_file_hash w file_path =
     (case stat_of w file_path of None \<Rightarrow> [] | Some st \<Rightarrow> digest w st file_path)"

text \<open>A supported file that is not a spreadsheet.\<close>

definition is_indexable :: "world \<Rightarrow> path \<Rightarrow> bool" where
  "is_indexable w file_path =
     (case get_file_type w file_path of None \<Rightarrow> False | Some t \<Rightarrow> t \<noteq> Excel)"

definition scan :: "world \<Rightarrow> path \<Rightarrow> bool \<Rightarrow> path list" where
  "scan w directory_path recursive =
     filter (is_indexable w)
       (if recursive then walk_files w directory_path else list_files w directory_path)"

definition index_single_file :: "world \<Rightarrow> time \<Rightarrow> path \<Rightarrow> indexer \<Rightarrow> bool \<times> indexer" where
  "index_single_file w now file_path st =
     (let info = get_file_info w file_path
      in if supported info
         then (True, st\<lparr>sindex := add_file now file_path (extract_text w file_path) info (sindex st),
                         indexed_paths := insert file_path (indexed_paths st),
                         extracted := extracted st @ [file_path]\<rparr>)
         else (False, st))"

definition remove_file_from_index :: "path \<Rightarrow> indexer \<Rightarrow> indexer" where
  "remove_file_from_index file_path st =
     st\<lparr>sindex := remove_file file_path (sindex st),
        indexed_paths := indexed_paths st - {file_path}\<rparr>"

definition cache_entry_of :: "world \<Rightarrow> path \<Rightarrow> file_entry \<Rightarrow> cache_entry" where
  "cache_entry_of w file_path fi =
     \<lparr>c_content = full_content fi, c_title = basename file_path,
      c_size = file_size_mb (meta fi), c_modified = indexed_time fi,
      c_type = file_type (meta fi), c_file_hash = get_file_hash w file_path,
      c_full_path = file_path\<rparr>"

text \<open>
  \<^verbatim>\<open>save_index_to_cache\<close>. Assigning to a key of a Python dictionary replaces the value
  in place or appends the key, as \<open>AList.update\<close> does.
\<close>

definition save_step :: "world \<Rightarrow> path \<Rightarrow> indexer \<Rightarrow> path \<Rightarrow>
    (path \<times> cache_entry) list \<Rightarrow> (path \<times> cache_entry) list" where
  "save_step w dir st file_path fs =
     (case file_info (sindex st) file_path of
        None \<Rightarrow> fs
      | Some fi \<Rightarrow> AList.update (relpath w file_path dir) (cache_entry_of w file_path fi) fs)"

definition save_index_to_cache :: "world \<Rightarrow> time \<Rightarrow> indexer \<Rightarrow> disk \<Rightarrow> disk" where
  "save_index_to_cache w now st d =
     (case cache_directory st of
        None \<Rightarrow> d
      | Some dir \<Rightarrow>
          d(dir \<mapsto> \<lparr>files = fold (save_step w dir st) (set_order w (indexed_paths st)) [],
                     last_indexed = now,
                     total_files = card (indexed_paths st),
                     index_version = u ''1.0''\<rparr>))"

text \<open>
  The first loop of \<^verbatim>\<open>load_index_from_cache\<close>, over the cached entries. The dictionary
  handed to \<^verbatim>\<open>add_file\<close> also has the keys \<^verbatim>\<open>indexed_time\<close> and \<^verbatim>\<open>content_preview\<close>,
  which \<^verbatim>\<open>add_file\<close> overwrites.
\<close>

definition restore_step :: "world \<Rightarrow> time \<Rightarrow> path \<times> cache_entry \<Rightarrow>
    path list \<times> indexer \<Rightarrow> path list \<times> indexer" where
  "restore_step w now item acc =
     (let file_data = snd item; full_path = c_full_path file_data;
          files_to_reindex = fst acc; st = snd acc
      in if full_path = [] then acc
         else if path_exists w full_path
         then (if get_file_hash w full_path \<noteq> c_file_hash file_data
               then (files_to_reindex @ [full_path], st)
               else (files_to_reindex,
                     st\<lparr>sindex := add_file now full_path (c_content file_data)
                                  \<lparr>file_type = c_type file_data, file_size_mb = c_size file_data,
                                   supported = True\<rparr> (sindex st),
                        indexed_paths := insert full_path (indexed_paths st)\<rparr>))
         else acc)"

definition restore_cached :: "world \<Rightarrow> time \<Rightarrow> (path \<times> cache_entry) list \<Rightarrow> indexer \<Rightarrow>
    path list \<times> indexer" where
  "restore_cached w now entries st = fold (restore_step w now) entries ([], st)"

text \<open>The second half of \<^verbatim>\<open>load_index_from_cache\<close>: new and deleted files.\<close>

definition current_files :: "world \<Rightarrow> path \<Rightarrow> bool \<Rightarrow> path set" where
  "current_files w directory_path recursive =
     set (map (normalize w) (scan w directory_path recursive))"

definition cached_files :: "world \<Rightarrow> path \<Rightarrow> bool \<Rightarrow> cache_doc \<Rightarrow> path set" where
  "cached_files w directory_path recursive cache_data =
     set (map (\<lambda>item. normalize w (c_full_path (snd item)))
            (filter (\<lambda>item. c_full_path (snd item) \<noteq> [] \<and>
                       (recursive \<or>
                        normalize w (dirname w (c_full_path (snd item))) =
                        normalize w directory_path))
               (files cache_data)))"

definition normalized_to_original :: "world \<Rightarrow> path \<Rightarrow> bool \<Rightarrow> path \<rightharpoonup> path" where
  "normalized_to_original w directory_path recursive =
     map_of (rev (map (\<lambda>p. (normalize w p, p)) (scan w directory_path recursive)))"

definition new_files_of :: "world \<Rightarrow> path \<Rightarrow> bool \<Rightarrow> cache_doc \<Rightarrow> path list" where
  "new_files_of w directory_path recursive cache_data =
     map (\<lambda>norm_path. case normalized_to_original w directory_path recursive norm_path of
                         None \<Rightarrow> norm_path | Some original \<Rightarrow> original)
       (set_order w (current_files w directory_path recursive -
                     cached_files w directory_path recursive cache_data))"

definition deleted_files_of :: "world \<Rightarrow> path \<Rightarrow> bool \<Rightarrow> cache_doc \<Rightarrow> path list" where
  "deleted_files_of w directory_path recursive cache_data =
     set_order w (cached_files w directory_path recursive cache_data -
                  current_files w directory_path recursive)"

definition evict_deleted :: "path list \<Rightarrow> indexer \<Rightarrow> indexer" where
  "evict_deleted deleted_files st =
     fold (\<lambda>deleted_file s. if deleted_file \<in> indexed_paths s
                              then remove_file_from_index deleted_file s else s)
       deleted_files st"

text \<open>
  \<^verbatim>\<open>load_index_from_cache\<close>, called with the directory: the result is the success flag,
  \<^verbatim>\<open>files_to_reindex\<close>, \<^verbatim>\<open>new_files\<close>, and the indexer.
\<close>

definition load_index_from_cache ::
  "world \<Rightarrow> time \<Rightarrow> path \<Rightarrow> bool \<Rightarrow> indexer \<Rightarrow> disk \<Rightarrow> bool \<times> path list \<times> path list \<times> indexer" where
  "load_index_from_cache w now directory_path recursive st d =
     (case d directory_path of
        None \<Rightarrow> (False, [], [], st)
      | Some cache_data \<Rightarrow>
          if index_version cache_data \<noteq> u ''1.0'' then (False, [], [], st)
          else let restored = restore_cached w now (files cache_data) st;
                   new_files = new_files_of w directory_path recursive cache_data;
                   deleted_files = deleted_files_of w directory_path recursive cache_data
               in (True, fst restored, new_files, evict_deleted deleted_files (snd restored)))"

text \<open>
  The worker pool of \<^verbatim>\<open>index_directory\<close>: every submitted file is indexed (the tasks run
  to completion also after a \<^verbatim>\<open>break\<close>); the index is behind one lock, so the tasks take
  effect one after the other. The result counts the tasks that returned \<^verbatim>\<open>True\<close>.
\<close>

definition index_files :: "world \<Rightarrow> time \<Rightarrow> path list \<Rightarrow> indexer \<Rightarrow> nat \<times> indexer" where
  "index_files w now files_to_index st =
     fold (\<lambda>file_path acc.
             let r = index_single_file w now file_path (snd acc)
             in (if fst r then Suc (fst acc) else fst acc, snd r))
       files_to_index (0, st)"

text \<open>
  \<^verbatim>\<open>index_directory\<close>, on the indexer and the disk. \<open>now\<close> is the clock of the run:
  every \<^verbatim>\<open>datetime.now()\<close> of one run reads the same instant. \<^verbatim>\<open>stop_indexing\<close> is read as
  it is when the run starts; when it is set, the loop over the finished tasks leaves at
  once and counts nothing. The progress callback is left out.
\<close>

definition index_directory ::
  "world \<Rightarrow> time \<Rightarrow> path \<Rightarrow> bool \<Rightarrow> indexer \<times> disk \<Rightarrow> indexer \<times> disk" where
  "index_directory w now directory_path recursive sd =
     (if path_exists w directory_path
      then (let st0 = (fst sd)\<lparr>cache_directory := Some directory_path\<rparr>;
                d = snd sd;
                loaded = load_index_from_cache w now directory_path recursive st0 d;
                cache_loaded = fst loaded;
                files_to_reindex = fst (snd loaded);
                new_files = fst (snd (snd loaded));
                st1 = snd (snd (snd loaded));
                files_to_index = (if cache_loaded then files_to_reindex @ new_files
                                  else scan w directory_path recursive)
            in if files_to_index = []
               then (if cache_loaded then (st1, save_index_to_cache w now st1 d) else (st1, d))
               else (let done = index_files w now files_to_index st1;
                         indexed_count = (if stop_indexing st1 then 0 else fst done);
                         st2 = snd done
                     in if indexed_count > 0 \<or> cache_loaded
                        then (st2, save_index_to_cache w now st2 d)
                        else (st2, d)))
      else sd)"

text \<open>
  Names for the statements about the cache: an entry whose file is on disk, an entry
  whose stored hash differs from the fresh one, and the \<^verbatim>\<open>file_info\<close> value that the
  restore loop stores for an entry.
\<close>

definition entry_present :: "world \<Rightarrow> cache_entry \<Rightarrow> bool" where
  "entry_present w e \<longleftrightarrow> c_full_path e \<noteq> [] \<and> path_exists w (c_full_path e)"

definition entry_changed :: "world \<Rightarrow> cache_entry \<Rightarrow> bool" where
  "entry_changed w e \<longleftrightarrow> get_file_hash w (c_full_path e) \<noteq> c_file_hash e"


text \<open>
  A world for the examples. The directory \<^verbatim>\<open>/link\<close> is a symbolic link to \<^verbatim>\<open>/data\<close> and
  holds one text file, \<^verbatim>\<open>a.txt\<close>, with the text \<^verbatim>\<open>apple banana\<close>; the digest of the
  example lists the modification time, the size and the path. In \<open>world_deleted\<close> the file
  has been removed.
\<close>

definition dir_l :: path where
  "dir_l = u ''/link''"

definition file_l :: path where
  "file_l = u ''/link/a.txt''"

definition world_linked :: world where
  "world_linked =
     \<lparr>path_exists = (\<lambda>p. p = dir_l \<or> p = file_l),
      stat_of = (\<lambda>p. if p = file_l then Some (100, 12) else None),
      digest = (\<lambda>st p. fst st # snd st # p),
      walk_files = (\<lambda>d. if d = dir_l then [file_l] else []),
      list_files = (\<lambda>d. if d = dir_l then [file_l] else []),
      normalize = (\<lambda>p. if p = file_l then u ''/data/a.txt''
                        else if p = dir_l then u ''/data'' else p),
      dirname = (\<lambda>p. if p = file_l then dir_l else p),
      relpath = (\<lambda>p d. drop (Suc (length d)) p),
      get_file_type = (\<lambda>p. Some Text),
      get_file_info = (\<lambda>p. meta0),
      extract_text = (\<lambda>p. u ''apple banana''),
      set_order = sorted_list_of_set\<rparr>"

definition world_deleted :: world where
  "world_deleted =
     world_linked\<lparr>path_exists := (\<lambda>p. p = dir_l), stat_of := (\<lambda>p. None),
                  walk_files := (\<lambda>d. []), list_files := (\<lambda>d. [])\<rparr>"

definition entry_l :: cache_entry where
  "entry_l = \<lparr>c_content = u ''apple banana'', c_title = u ''a.txt'', c_size = 0,
              c_modified = 10, c_type = Some Text, c_file_hash = 100 # 12 # file_l,
              c_full_path = file_l\<rparr>"

definition cache_l :: cache_doc where
  "cache_l = \<lparr>files = [(u ''a.txt'', entry_l)], last_indexed = 10, total_files = 1,
              index_version = u ''1.0''\<rparr>"


text \<open>The indexer after the first run over \<^verbatim>\<open>/link\<close> in \<open>world_linked\<close>, at time 10.\<close>

definition indexer_l :: indexer where
  "indexer_l =
     \<lparr>sindex = add_file 10 file_l (u ''apple banana'') meta0 empty_index,
      indexed_paths = {file_l}, stop_indexing = False, cache_directory = Some dir_l,
      extracted = [file_l]\<rparr>"

section \<open>Properties of the inverted index\<close>

lemma fold_add_posting:
  "fold (add_posting p) ts m t =
     (if t \<in> set ts then Some (insert p (case m t of None \<Rightarrow> {} | Some s \<Rightarrow> s)) else m t)"
  by (induction ts arbitrary: m) (auto simp: add_posting_def)

lemma index_remove_file:
  "index (remove_file p idx) t =
     (case index idx t of None \<Rightarrow> None
      | Some s \<Rightarrow> if p \<in> s then (if s - {p} = {} then None else Some (s - {p})) else Some s)"
  by (simp add: remove_file_def)

lemma file_info_remove_file: "file_info (remove_file p idx) = (file_info idx)(p := None)"
  by (simp add: remove_file_def)

lemma index_add_file:
  "index (add_file now p c info idx) t =
     (if t \<in> set (tokenize (basename p @ [32] @ c))
      then Some (insert p (postings (remove_file p idx) t))
      else index (remove_file p idx) t)"
  by (simp add: add_file_def Let_def fold_add_posting postings_def)

lemma file_info_add_file:
  "file_info (add_file now p c info idx) =
     (file_info idx)(p \<mapsto> \<lparr>meta = info, indexed_time = now,
                           content_preview = take 200 c, full_content = c\<rparr>)"
  by (simp add: add_file_def Let_def file_info_remove_file)

lemma postings_remove_file: "postings (remove_file p idx) t = postings idx t - {p}"
  by (auto simp: postings_def index_remove_file split: option.splits)

lemma postings_add_file:
  "postings (add_file now p c info idx) t =
     (if t \<in> set (tokenize (basename p @ [32] @ c)) then insert p (postings idx t - {p})
      else postings idx t - {p})"
  by (simp add: postings_def[of "add_file now p c info idx"] index_add_file postings_remove_file)
     (simp add: postings_def index_remove_file split: option.splits)

lemma no_empty_remove: "no_empty_postings idx \<Longrightarrow> no_empty_postings (remove_file p idx)"
  unfolding no_empty_postings_def
proof (intro allI impI)
  fix token s
  assume h: "\<forall>token s. index idx token = Some s \<longrightarrow> s \<noteq> {}"
    and r: "index (remove_file p idx) token = Some s"
  show "s \<noteq> {}"
  proof (cases "index idx token")
    case None
    then show ?thesis using r by (simp add: index_remove_file)
  next
    case (Some s0)
    then have "s0 \<noteq> {}" using h by blast
    then show ?thesis using r Some by (auto simp: index_remove_file split: if_splits)
  qed
qed

lemma no_empty_add: "no_empty_postings idx \<Longrightarrow> no_empty_postings (add_file now p c info idx)"
  using no_empty_remove[of idx p]
  unfolding no_empty_postings_def
  by (simp add: index_add_file split: if_splits)

lemma postings_subset_iff:
  "postings_have_info idx \<longleftrightarrow> (\<forall>t. postings idx t \<subseteq> dom (file_info idx))"
  unfolding postings_have_info_def postings_def
  by (auto split: option.splits)

lemma have_info_remove: "postings_have_info idx \<Longrightarrow> postings_have_info (remove_file p idx)"
  unfolding postings_subset_iff
  by (auto simp: postings_remove_file file_info_remove_file)

lemma have_info_add: "postings_have_info idx \<Longrightarrow> postings_have_info (add_file now p c info idx)"
  unfolding postings_subset_iff
  by (auto simp: postings_add_file file_info_add_file)

lemma remove_file_idem_absent:
  assumes "\<forall>t s. index idx t = Some s \<longrightarrow> p \<notin> s" "p \<notin> dom (file_info idx)"
  shows "remove_file p idx = idx"
proof -
  have "index (remove_file p idx) = index idx"
    using assms(1) by (auto simp: index_remove_file fun_eq_iff split: option.splits)
  moreover have "file_info (remove_file p idx) = file_info idx"
    using assms(2) by (auto simp: file_info_remove_file fun_eq_iff)
  ultimately show ?thesis by simp
qed

lemma not_in_postings_remove: "p \<notin> postings (remove_file p idx) t"
  by (simp add: postings_remove_file)

lemma index_as_postings:
  "no_empty_postings idx \<Longrightarrow>
   index idx t = (if postings idx t = {} then None else Some (postings idx t))"
  by (auto simp: no_empty_postings_def postings_def split: option.splits)

lemma remove_add_index:
  assumes "no_empty_postings idx"
  shows "index (remove_file p (add_file now p c info idx)) t = index (remove_file p idx) t"
proof (cases "t \<in> set (tokenize (basename p @ [32] @ c))")
  case True
  let ?X = "postings (remove_file p idx) t"
  have a: "index (add_file now p c info idx) t = Some (insert p ?X)"
    using True by (simp add: index_add_file)
  have b: "insert p ?X - {p} = ?X"
    using not_in_postings_remove[of p idx t] by blast
  have "index (remove_file p (add_file now p c info idx)) t = (if ?X = {} then None else Some ?X)"
    by (simp add: index_remove_file[of p "add_file now p c info idx"] a b)
  also have "\<dots> = index (remove_file p idx) t"
    using index_as_postings[OF no_empty_remove[OF assms], of p t] by simp
  finally show ?thesis .
next
  case False
  have a: "index (add_file now p c info idx) t = index (remove_file p idx) t"
    using False by (simp add: index_add_file)
  show ?thesis
  proof (cases "index (remove_file p idx) t")
    case None
    then show ?thesis by (simp add: index_remove_file[of p "add_file now p c info idx"] a)
  next
    case (Some s)
    then have "postings (remove_file p idx) t = s" by (simp add: postings_def)
    then have "p \<notin> s" using not_in_postings_remove[of p idx t] by simp
    then show ?thesis using Some by (simp add: index_remove_file[of p "add_file now p c info idx"] a)
  qed
qed

lemma remove_add:
  assumes "no_empty_postings idx"
  shows "remove_file p (add_file now p c info idx) = remove_file p idx"
proof -
  have "index (remove_file p (add_file now p c info idx)) = index (remove_file p idx)"
    using remove_add_index[OF assms] by (simp add: fun_eq_iff)
  moreover have "file_info (remove_file p (add_file now p c info idx)) = file_info (remove_file p idx)"
    by (simp add: file_info_remove_file file_info_add_file)
  ultimately show ?thesis by simp
qed

lemmas tok_eval = tokenize_def raw_words_def split_ws_def blank_others_def lower_def lower_cp_def
      kept_def is_space_def u_def stop_words_def korean_stop_words_def english_stop_words_def

lemma words_from_sep:
  "is_space sp \<Longrightarrow> words_from cur (a @ sp # b) = words_from cur a @ words_from [] b"
  by (induction a arbitrary: cur) auto

lemma raw_words_join: "raw_words (a @ 32 # b) = raw_words a @ raw_words b"
proof -
  have sp: "is_space 32" by (simp add: is_space_def)
  have "blank_others (lower (a @ 32 # b)) = blank_others (lower a) @ 32 # blank_others (lower b)"
    by (simp add: lower_def blank_others_def lower_cp_def kept_def is_space_def)
  then show ?thesis
    by (simp add: raw_words_def split_ws_def words_from_sep[OF sp])
qed

lemma tokenize_join: "tokenize (a @ 32 # b) = tokenize a @ tokenize b"
  by (simp add: tokenize_def raw_words_join)

lemma reaches_inv:
  "reaches given idx \<Longrightarrow>
     (\<forall>t p. p \<in> postings idx t \<longleftrightarrow>
        (\<exists>c. given p = Some c \<and> t \<in> set (tokenize (basename p @ [32] @ c)))) \<and>
     no_empty_postings idx \<and>
     (\<forall>p. map_option full_content (file_info idx p) = given p)"
proof (induction rule: reaches.induct)
  case reaches_empty
  then show ?case by (simp add: empty_index_def postings_def no_empty_postings_def)
next
  case (reaches_add given idx file_path content now info)
  then have a: "\<forall>t p. p \<in> postings idx t \<longleftrightarrow>
        (\<exists>c. given p = Some c \<and> t \<in> set (tokenize (basename p @ [32] @ c)))"
    and b: "no_empty_postings idx"
    and c: "\<forall>p. map_option full_content (file_info idx p) = given p" by blast+
  have "p \<in> postings (add_file now file_path content info idx) t \<longleftrightarrow>
        (\<exists>c. (given(file_path \<mapsto> content)) p = Some c \<and> t \<in> set (tokenize (basename p @ [32] @ c)))" for t p
    using a by (cases "p = file_path") (simp_all add: postings_add_file)
  moreover have "map_option full_content (file_info (add_file now file_path content info idx) p) =
       (given(file_path \<mapsto> content)) p" for p
    using c by (simp add: file_info_add_file)
  ultimately show ?case using no_empty_add[OF b] by blast
next
  case (reaches_remove given idx file_path)
  then have a: "\<forall>t p. p \<in> postings idx t \<longleftrightarrow>
        (\<exists>c. given p = Some c \<and> t \<in> set (tokenize (basename p @ [32] @ c)))"
    and b: "no_empty_postings idx"
    and c: "\<forall>p. map_option full_content (file_info idx p) = given p" by blast+
  have "p \<in> postings (remove_file file_path idx) t \<longleftrightarrow>
        (\<exists>c. (given(file_path := None)) p = Some c \<and> t \<in> set (tokenize (basename p @ [32] @ c)))" for t p
    using a by (cases "p = file_path") (simp_all add: postings_remove_file)
  moreover have "map_option full_content (file_info (remove_file file_path idx) p) =
       (given(file_path := None)) p" for p
    using c by (simp add: file_info_remove_file)
  ultimately show ?case using no_empty_remove[OF b] by blast
qed

lemma reaches_not_indexed:
  assumes "reaches given idx" "file_info idx p = None"
  shows "\<forall>t s. index idx t = Some s \<longrightarrow> p \<notin> s"
proof (intro allI impI)
  fix t s assume h: "index idx t = Some s"
  have "given p = None" using reaches_inv[OF assms(1)] assms(2) by (metis option.map_disc_iff)
  then have "p \<notin> postings idx t" using reaches_inv[OF assms(1)] by simp
  then show "p \<notin> s" using h by (simp add: postings_def)
qed

text \<open>
  Claim C6, amended. \<^verbatim>\<open>add_file\<close> first removes the path, so \<^verbatim>\<open>add_file\<close> followed by
  \<^verbatim>\<open>remove_file\<close> of the same path leaves the index as \<^verbatim>\<open>remove_file\<close> alone would:
  in every state the two operations reach, postings and metadata are those of the prior
  state without the path, and they are the prior state itself when the path was not
  indexed before the \<^verbatim>\<open>add_file\<close>.
\<close>

theorem add_then_remove_restores:
  assumes "reaches given idx"
  shows "remove_file p (add_file now p c info idx) = remove_file p idx \<and>
         (file_info idx p = None \<longrightarrow> remove_file p (add_file now p c info idx) = idx)"
proof -
  have ne: "no_empty_postings idx" using reaches_inv[OF assms] by blast
  have a: "remove_file p (add_file now p c info idx) = remove_file p idx"
    by (rule remove_add[OF ne])
  have "remove_file p idx = idx" if "file_info idx p = None"
    using remove_file_idem_absent[of idx p] reaches_not_indexed[OF assms that] that
    by (simp add: domIff)
  then show ?thesis using a by simp
qed

theorem add_then_remove_restores_witness:
  "reaches Map.empty empty_index \<and> file_info empty_index (u ''/d/a.txt'') = None \<and>
   remove_file (u ''/d/a.txt'') (add_file 1 (u ''/d/a.txt'') (u ''apple banana'') meta0 empty_index)
     = empty_index"
proof -
  have a: "file_info empty_index (u ''/d/a.txt'') = None" by (simp add: empty_index_def)
  from add_then_remove_restores[OF reaches_empty, of "u ''/d/a.txt''" 1 "u ''apple banana''" meta0] a
  have "remove_file (u ''/d/a.txt'') (add_file 1 (u ''/d/a.txt'') (u ''apple banana'') meta0 empty_index)
     = empty_index" by blast
  then show ?thesis using a reaches_empty by blast
qed

text \<open>
  Claim C6 as stated fails when the path is already indexed: the file indexed before the
  \<^verbatim>\<open>add_file\<close> is gone after the \<^verbatim>\<open>remove_file\<close>.
\<close>

theorem add_then_remove_counterexample:
  "remove_file (u ''/d/a.txt'')
     (add_file 2 (u ''/d/a.txt'') (u ''apple banana'') meta0
        (add_file 1 (u ''/d/a.txt'') (u ''apple banana'') meta0 empty_index))
   \<noteq> add_file 1 (u ''/d/a.txt'') (u ''apple banana'') meta0 empty_index"
proof
  assume "remove_file (u ''/d/a.txt'')
     (add_file 2 (u ''/d/a.txt'') (u ''apple banana'') meta0
        (add_file 1 (u ''/d/a.txt'') (u ''apple banana'') meta0 empty_index))
   = add_file 1 (u ''/d/a.txt'') (u ''apple banana'') meta0 empty_index"
  then have "file_info (remove_file (u ''/d/a.txt'')
     (add_file 2 (u ''/d/a.txt'') (u ''apple banana'') meta0
        (add_file 1 (u ''/d/a.txt'') (u ''apple banana'') meta0 empty_index))) (u ''/d/a.txt'')
   = file_info (add_file 1 (u ''/d/a.txt'') (u ''apple banana'') meta0 empty_index) (u ''/d/a.txt'')"
    by simp
  then show False by (simp add: file_info_remove_file file_info_add_file)
qed

text \<open>
  Claim C7. After every sequence of \<^verbatim>\<open>add_file\<close> and \<^verbatim>\<open>remove_file\<close>, a path is in
  the postings set of token \<open>T\<close> exactly when the path is indexed and \<open>T\<close> is a token of
  its file name or of the content given to its most recent \<^verbatim>\<open>add_file\<close>; and no token
  is mapped to the empty set.
\<close>

theorem postings_exact:
  assumes "reaches given idx"
  shows "(\<forall>T p. (\<exists>s. index idx T = Some s \<and> p \<in> s) \<longleftrightarrow>
            (\<exists>content. given p = Some content \<and>
               (T \<in> set (tokenize (basename p)) \<or> T \<in> set (tokenize content)))) \<and>
         (\<forall>T. index idx T \<noteq> Some {})"
proof -
  have a: "\<forall>t p. p \<in> postings idx t \<longleftrightarrow>
        (\<exists>c. given p = Some c \<and> t \<in> set (tokenize (basename p @ [32] @ c)))"
    and ne: "no_empty_postings idx" using reaches_inv[OF assms] by blast+
  have b: "(\<exists>s. index idx T = Some s \<and> p \<in> s) \<longleftrightarrow> p \<in> postings idx T" for T p
    by (auto simp: postings_def split: option.splits)
  have "(\<exists>s. index idx T = Some s \<and> p \<in> s) \<longleftrightarrow>
            (\<exists>content. given p = Some content \<and>
               (T \<in> set (tokenize (basename p)) \<or> T \<in> set (tokenize content)))" for T p
    unfolding b using a by (simp add: tokenize_join)
  moreover have "index idx T \<noteq> Some {}" for T
    using ne by (auto simp: no_empty_postings_def)
  ultimately show ?thesis by blast
qed

theorem postings_exact_witness:
  "reaches [u ''/d/a.txt'' \<mapsto> u ''apple banana'']
     (add_file 1 (u ''/d/a.txt'') (u ''apple banana'') meta0 empty_index) \<and>
   (\<exists>s. index (add_file 1 (u ''/d/a.txt'') (u ''apple banana'') meta0 empty_index) (u ''banana'') = Some s
        \<and> u ''/d/a.txt'' \<in> s) \<and>
   \<not> (\<exists>s. index (add_file 1 (u ''/d/a.txt'') (u ''apple banana'') meta0 empty_index) (u ''cherry'') = Some s
        \<and> u ''/d/a.txt'' \<in> s)"
proof -
  have r: "reaches [u ''/d/a.txt'' \<mapsto> u ''apple banana'']
     (add_file 1 (u ''/d/a.txt'') (u ''apple banana'') meta0 empty_index)"
    using reaches_add[OF reaches_empty] by simp
  have t1: "tokenize (u ''apple banana'') = [u ''apple'', u ''banana'']" by (simp add: tok_eval)
  have t2: "tokenize (basename (u ''/d/a.txt'')) = [u ''txt'']" by (simp add: tok_eval)
  have n: "u ''cherry'' \<noteq> u ''txt'' \<and> u ''cherry'' \<noteq> u ''apple'' \<and> u ''cherry'' \<noteq> u ''banana''"
    by (simp add: u_def)
  show ?thesis
    using postings_exact[OF r] r t1 t2 n by simp
qed

lemma strip_all_space: "\<forall>c\<in>set q. is_space c \<Longrightarrow> strip q = []"
  by (auto simp: strip_def dest: set_dropWhileD)

lemma strip_empty_all_space: "strip q = [] \<Longrightarrow> \<forall>c\<in>set q. is_space c"
proof -
  assume "strip q = []"
  then have a: "\<forall>c\<in>set (dropWhile is_space q). is_space c"
    by (simp add: strip_def)
  have "dropWhile is_space q = []"
  proof (rule ccontr)
    assume n: "dropWhile is_space q \<noteq> []"
    then have "\<not> is_space (hd (dropWhile is_space q))" by (rule hd_dropWhile)
    moreover have "hd (dropWhile is_space q) \<in> set (dropWhile is_space q)" using n by simp
    ultimately show False using a by blast
  qed
  then show ?thesis by simp
qed

lemma tokenize_empty_iff:
  "tokenize q = [] \<longleftrightarrow> (\<forall>w\<in>set (raw_words q). length w < 2 \<or> w \<in> stop_words)"
  by (auto simp: tokenize_def filter_empty_conv)

lemma search_no_tokens: "tokenize q = [] \<Longrightarrow> search to_list q n idx = ([], idx)"
  by (simp add: search_def)

lemma search_blank: "strip q = [] \<Longrightarrow> search to_list q n idx = ([], idx)"
  by (simp add: search_def)

text \<open>
  Claim C10. \<^verbatim>\<open>search\<close> returns the empty list, and leaves the index as it is, when
  the query is empty, consists of white space only, or has no token: every word of it
  is shorter than 2 characters or a stop word.
\<close>

theorem search_empty_query:
  assumes "q = [] \<or> (\<forall>c\<in>set q. is_space c) \<or>
           (\<forall>w\<in>set (raw_words q). length w < 2 \<or> w \<in> stop_words)"
  shows "search to_list q n idx = ([], idx)"
proof -
  consider "\<forall>c\<in>set q. is_space c" | "\<forall>w\<in>set (raw_words q). length w < 2 \<or> w \<in> stop_words"
    using assms by auto
  then show ?thesis
  proof cases
    case 1
    then show ?thesis by (simp add: search_blank strip_all_space)
  next
    case 2
    then show ?thesis by (simp add: search_no_tokens tokenize_empty_iff)
  qed
qed

lemma words_one: "set (words_from [] [c]) \<subseteq> {[c]}"
  by simp

lemma raw_words_single: "w \<in> set (raw_words [c]) \<Longrightarrow> length w < 2"
proof -
  assume h: "w \<in> set (raw_words [c])"
  have sp: "is_space 32" by (simp add: is_space_def)
  have n775: "\<not> kept 775" by (simp add: kept_def is_space_def)
  consider (up) "65 \<le> c \<and> c \<le> 90" | (i) "c = 304" | (k) "c = 8490"
    | (other) "\<not> (65 \<le> c \<and> c \<le> 90)" "c \<noteq> 304" "c \<noteq> 8490" by blast
  then show ?thesis
  proof cases
    case up
    then have "raw_words [c] = words_from [] [if kept (c + 32) then c + 32 else 32]"
      by (simp add: raw_words_def split_ws_def blank_others_def lower_def lower_cp_def)
    then show ?thesis using h by (auto split: if_splits)
  next
    case i
    then have "raw_words [c] = words_from [] [if kept 105 then 105 else 32, 32]"
      by (simp add: raw_words_def split_ws_def blank_others_def lower_def lower_cp_def n775)
    then show ?thesis using h sp by (auto split: if_splits)
  next
    case k
    then have "raw_words [c] = words_from [] [if kept 107 then 107 else 32]"
      by (simp add: raw_words_def split_ws_def blank_others_def lower_def lower_cp_def)
    then show ?thesis using h by (auto split: if_splits)
  next
    case other
    then have "lower_cp c = [c]" by (auto simp: lower_cp_def)
    then have "raw_words [c] = words_from [] [if kept c then c else 32]"
      by (simp add: raw_words_def split_ws_def blank_others_def lower_def)
    then show ?thesis using h by (auto split: if_splits)
  qed
qed

lemma tokenize_short: "length q < 2 \<Longrightarrow> tokenize q = []"
proof -
  assume "length q < 2"
  then consider "q = []" | c where "q = [c]"
    by (cases q) (auto simp: length_Suc_conv)
  then show ?thesis
  proof cases
    case 1
    then show ?thesis
      by (simp add: tokenize_def raw_words_def split_ws_def blank_others_def lower_def)
  next
    case 2
    then show ?thesis using raw_words_single[of _ c]
      by (auto simp: tokenize_empty_iff)
  qed
qed

text \<open>
  Claim C8, amended. The index enforces the minimum itself: \<^verbatim>\<open>_tokenize\<close> drops every
  token shorter than 2 characters, so in every index state \<^verbatim>\<open>search\<close> returns the
  empty list for every query shorter than 2 characters.
\<close>

theorem short_query_no_results:
  "length q < 2 \<Longrightarrow> search to_list q n idx = ([], idx)"
  by (simp add: search_no_tokens tokenize_short)

text \<open>
  Claim C8 as stated fails: no index state and no 1-character query give a non-empty
  result list.
\<close>

theorem one_char_query_counterexample:
  "\<not> (\<exists>to_list idx q n. length q = 1 \<and> fst (search to_list q n idx) \<noteq> [])"
proof
  assume "\<exists>to_list idx q n. length q = 1 \<and> fst (search to_list q n idx) \<noteq> []"
  then obtain to_list idx q n where a: "length q = 1" and b: "fst (search to_list q n idx) \<noteq> []"
    by blast
  from a have "tokenize q = []" by (simp add: tokenize_short)
  then show False using b by (simp add: search_no_tokens)
qed


theorem search_empty_query_witness:
  "raw_words (u ''a the'') = [u ''a'', u ''the''] \<and> u ''the'' \<in> stop_words \<and>
   search sorted_list_of_set (u ''a the'') 10
     (add_file 1 (u ''/d/a.txt'') (u ''apple banana'') meta0 empty_index)
   = ([], add_file 1 (u ''/d/a.txt'') (u ''apple banana'') meta0 empty_index)"
proof -
  have w: "raw_words (u ''a the'') = [u ''a'', u ''the'']"
    by (simp add: raw_words_def split_ws_def blank_others_def lower_def lower_cp_def kept_def
        is_space_def u_def)
  have s: "u ''the'' \<in> stop_words"
    by (simp add: stop_words_def english_stop_words_def)
  have h: "\<forall>w\<in>set (raw_words (u ''a the'')). length w < 2 \<or> w \<in> stop_words"
    using s by (simp add: w) (simp add: u_def)
  show ?thesis
    using search_empty_query[of "u ''a the''" sorted_list_of_set 10
        "add_file 1 (u ''/d/a.txt'') (u ''apple banana'') meta0 empty_index"] h w s
    by blast
qed

theorem short_query_no_results_witness:
  "length (u ''a'') < 2 \<and>
   search sorted_list_of_set (u ''a'') 10
     (add_file 1 (u ''/d/a.txt'') (u ''apple banana'') meta0 empty_index)
   = ([], add_file 1 (u ''/d/a.txt'') (u ''apple banana'') meta0 empty_index)"
proof -
  have l: "length (u ''a'') < 2" by (simp add: u_def)
  show ?thesis
    using short_query_no_results[OF l, of sorted_list_of_set 10
        "add_file 1 (u ''/d/a.txt'') (u ''apple banana'') meta0 empty_index"] l
    by blast
qed

lemma startswith_self: "startswith t t"
  by (induction t) auto

lemma contains_self: "contains t t"
  by (cases t) (auto simp: startswith_self)

lemma startswith_contains: "startswith t s \<Longrightarrow> contains t s"
  by (cases t; cases s) auto

lemma matching_files_iff:
  "p \<in> matching_files idx token \<longleftrightarrow> (\<exists>t. contains t token \<and> p \<in> postings idx t)"
proof
  assume "p \<in> matching_files idx token"
  then consider "p \<in> postings idx token"
    | t where "startswith t token \<or> contains t token" "p \<in> postings idx t"
    by (auto simp: matching_files_def)
  then show "\<exists>t. contains t token \<and> p \<in> postings idx t"
    using contains_self startswith_contains by cases blast+
next
  assume "\<exists>t. contains t token \<and> p \<in> postings idx t"
  then obtain t where t: "contains t token" "p \<in> postings idx t" by blast
  then have "t \<in> dom (index idx)" by (auto simp: postings_def split: option.splits)
  then show "p \<in> matching_files idx token"
    using t by (auto simp: matching_files_def)
qed






lemma fold_inter: "fold (\<lambda>r acc. acc \<inter> r) rs a = a \<inter> \<Inter>(set rs)"
  by (induction rs arbitrary: a) auto

lemma fold_union: "fold (\<lambda>r acc. acc \<union> r) rs a = a \<union> \<Union>(set rs)"
  by (induction rs arbitrary: a) auto

lemma candidate_files_eq:
  assumes "toks \<noteq> []"
  shows "candidate_files to_list idx toks n =
     slice_to n (if int (card (and_matches idx toks)) < n div 2
                 then to_list (and_matches idx toks) @
                      to_list (or_matches idx toks - and_matches idx toks)
                 else to_list (and_matches idx toks))"
proof -
  obtain t ts where toks: "toks = t # ts" using assms by (cases toks) auto
  have a: "fold (\<lambda>r acc. acc \<inter> r) (tl (map (matching_files idx) toks))
             (hd (map (matching_files idx) toks)) = and_matches idx toks"
    by (auto simp: toks fold_inter and_matches_def)
  have b: "fold (\<lambda>r acc. acc \<union> r) (map (matching_files idx) toks) {} = or_matches idx toks"
    by (auto simp: fold_union or_matches_def)
  show ?thesis
    by (simp add: candidate_files_def Let_def a b)
qed


lemma score_build_results:
  "r \<in> set (build_results idx toks ps) \<Longrightarrow>
   relevance_score r = calculate_relevance idx (r_file_path r) toks"
  by (auto simp: build_results_def make_result_def split: option.splits)

lemma info_build_results:
  assumes "r \<in> set (build_results idx toks ps)"
  shows "\<exists>fi. file_info idx (r_file_path r) = Some fi \<and>
              r = make_result idx toks (r_file_path r) fi"
proof -
  have "r \<in> set (build_results idx toks ps) \<Longrightarrow>
        \<exists>p fi. file_info idx p = Some fi \<and> r = make_result idx toks p fi"
  proof (induction ps)
    case Nil
    then show ?case by (simp add: build_results_def)
  next
    case (Cons a ps)
    show ?case
    proof (cases "file_info idx a")
      case None
      then have "build_results idx toks (a # ps) = build_results idx toks ps"
        by (simp add: build_results_def)
      then show ?thesis using Cons by simp
    next
      case (Some fi)
      then have "build_results idx toks (a # ps) =
                 make_result idx toks a fi # build_results idx toks ps"
        by (simp add: build_results_def)
      then show ?thesis using Cons Some by auto
    qed
  qed
  with assms obtain p fi where a: "file_info idx p = Some fi" and b: "r = make_result idx toks p fi"
    by blast
  have "r_file_path r = p" by (simp add: b make_result_def)
  then show ?thesis using a b by simp
qed

lemma lower_cp_space: "is_space c \<Longrightarrow> lower_cp c = [c]"
  by (auto simp: is_space_def lower_cp_def)

lemma raw_words_spaces: "\<forall>c\<in>set s. is_space c \<Longrightarrow> raw_words s = []"
proof -
  assume h: "\<forall>c\<in>set s. is_space c"
  then have "lower s = s" by (induction s) (auto simp: lower_def lower_cp_space)
  moreover have "blank_others s = s" using h by (induction s) (auto simp: blank_others_def kept_def)
  moreover have "words_from [] s = []" using h by (induction s) auto
  ultimately show ?thesis by (simp add: raw_words_def split_ws_def)
qed

lemma tokens_not_blank: "tokenize q \<noteq> [] \<Longrightarrow> strip q \<noteq> []"
  using raw_words_spaces[of q] strip_empty_all_space[of q] by (auto simp: tokenize_def)

lemma search_eq:
  "tokenize q \<noteq> [] \<Longrightarrow>
   search to_list q n idx =
     (sort_key (\<lambda>r. - relevance_score r)
        (build_results idx (tokenize q) (candidate_files to_list idx (tokenize q) n)), idx)"
  using tokens_not_blank[of q] by (simp add: search_def Let_def)

lemma search_state: "snd (search to_list q n idx) = idx"
  by (simp add: search_def Let_def)

lemma search_results_info:
  assumes "r \<in> set (fst (search to_list q n idx))"
  shows "\<exists>fi. file_info idx (r_file_path r) = Some fi \<and>
              r = make_result idx (tokenize q) (r_file_path r) fi"
proof (cases "tokenize q = []")
  case True
  then show ?thesis using assms by (simp add: search_no_tokens)
next
  case False
  then show ?thesis using assms info_build_results by (simp add: search_eq)
qed


lemma score_step_eq:
  "score_step idx fn token score =
     score + ((if contains fn token then 2 else 0) +
              (if card (postings idx token) > 0 then 1 / of_nat (card (postings idx token)) else 0))"
  by (auto simp: score_step_def postings_def Let_def split: option.splits)

lemma fold_score_step:
  "fold (score_step idx fn) toks acc =
     acc + (\<Sum>token\<leftarrow>toks. (if contains fn token then 2 else 0) +
              (if card (postings idx token) > 0 then 1 / of_nat (card (postings idx token)) else 0))"
  by (induction toks arbitrary: acc) (simp_all add: score_step_eq)











lemma tokens_a:
  "tokenize (basename file_a @ 32 # u ''apple banana cherry'') =
     [u ''x1'', u ''txt'', u ''apple'', u ''banana'', u ''cherry'']"
  by (simp add: tok_eval file_a_def)

lemma tokens_b:
  "tokenize (basename file_b @ 32 # u ''date'') =
     [u ''apple'', u ''banana'', u ''txt'', u ''date'']"
  by (simp add: tok_eval file_b_def)

lemma file_info_index_ab:
  "file_info index_ab file_a \<noteq> None" "file_info index_ab file_b \<noteq> None"
  by (simp_all add: index_ab_def file_info_add_file)

lemma file_a_neq_b: "file_a \<noteq> file_b"
  by (simp add: file_a_def file_b_def u_def)




lemma postings_empty_index: "postings empty_index t = {}"
  by (simp add: postings_def empty_index_def)

lemma postings_index_a:
  "postings (add_file 1 file_a (u ''apple banana cherry'') meta0 empty_index) t =
     (if t \<in> set [u ''x1'', u ''txt'', u ''apple'', u ''banana'', u ''cherry''] then {file_a} else {})"
  by (simp only: postings_add_file postings_empty_index append_Cons append_Nil tokens_a) simp

lemma postings_index_ab:
  "postings index_ab t =
     (if t \<in> set [u ''apple'', u ''banana'', u ''txt'', u ''date''] then {file_b} else {}) \<union>
     (if t \<in> set [u ''x1'', u ''txt'', u ''apple'', u ''banana'', u ''cherry''] then {file_a} else {})"
proof -
  have "postings index_ab t =
     (if t \<in> set [u ''apple'', u ''banana'', u ''txt'', u ''date'']
      then insert file_b (postings (add_file 1 file_a (u ''apple banana cherry'') meta0 empty_index) t - {file_b})
      else postings (add_file 1 file_a (u ''apple banana cherry'') meta0 empty_index) t - {file_b})"
    unfolding index_ab_def
    by (simp only: postings_add_file[of 2] append_Cons append_Nil tokens_b)
  also have "postings (add_file 1 file_a (u ''apple banana cherry'') meta0 empty_index) t - {file_b}
      = (if t \<in> set [u ''x1'', u ''txt'', u ''apple'', u ''banana'', u ''cherry''] then {file_a} else {})"
    using file_a_neq_b by (simp only: postings_index_a) simp
  finally show ?thesis by (simp only:) (simp split: if_splits)
qed


lemma matching_two:
  assumes "\<And>t. postings idx t = (if t \<in> B then {b} else {}) \<union> (if t \<in> A then {a} else {})"
  shows "matching_files idx token =
           (if \<exists>t\<in>B. contains t token then {b} else {}) \<union>
           (if \<exists>t\<in>A. contains t token then {a} else {})"
proof -
  have a: "p \<in> postings idx t \<longleftrightarrow> (t \<in> B \<and> p = b) \<or> (t \<in> A \<and> p = a)" for p t
    by (simp add: assms)
  have "p \<in> matching_files idx token \<longleftrightarrow>
        (p = b \<and> (\<exists>t\<in>B. contains t token)) \<or> (p = a \<and> (\<exists>t\<in>A. contains t token))" for p
    unfolding matching_files_iff a by blast
  then show ?thesis by (intro set_eqI) simp
qed

lemmas matching_index_ab = matching_two[of index_ab, OF postings_index_ab]

lemma toks_q:
  "tokenize (u ''apple banana cherry'') = [u ''apple'', u ''banana'', u ''cherry'']"
  by (simp add: tok_eval)

lemma m_apple: "matching_files index_ab (u ''apple'') = {file_a, file_b}"
  by (simp add: matching_index_ab) (simp add: u_def insert_commute)

lemma m_banana: "matching_files index_ab (u ''banana'') = {file_a, file_b}"
  by (simp add: matching_index_ab) (simp add: u_def insert_commute)

lemma m_cherry: "matching_files index_ab (u ''cherry'') = {file_a}"
  by (simp add: matching_index_ab) (simp add: u_def)

lemma and_q: "and_matches index_ab [u ''apple'', u ''banana'', u ''cherry''] = {file_a}"
  by (auto simp: and_matches_def m_apple m_banana m_cherry)

lemma or_q: "or_matches index_ab [u ''apple'', u ''banana'', u ''cherry''] = {file_a, file_b}"
  by (auto simp: or_matches_def m_apple m_banana m_cherry)

lemma cand_q:
  "candidate_files sorted_list_of_set index_ab [u ''apple'', u ''banana'', u ''cherry''] 10
     = [file_a, file_b]"
proof -
  have "{file_a, file_b} - {file_a} = {file_b}" using file_a_neq_b by auto
  then show ?thesis
    by (simp add: candidate_files_eq and_q or_q slice_to_def)
qed


lemma relevance_sum:
  "calculate_relevance idx p toks =
     (if file_info idx p = None then 0
      else (\<Sum>token\<leftarrow>toks. (if contains (lower (basename p)) token then 2 else 0) +
              (if card (postings idx token) > 0 then 1 / of_nat (card (postings idx token)) else 0)))"
  by (auto simp: calculate_relevance_def fold_score_step domIff)

lemma card_apple: "card (postings index_ab (u ''apple'')) = 2"
  using file_a_neq_b by (simp add: postings_index_ab)

lemma card_banana: "card (postings index_ab (u ''banana'')) = 2"
  using file_a_neq_b by (simp add: postings_index_ab)

lemma card_cherry: "card (postings index_ab (u ''cherry'')) = 1"
  by (simp add: postings_index_ab) (simp add: u_def)

lemma name_a: "lower (basename file_a) = u ''x1.txt''"
  by (simp add: file_a_def u_def lower_def lower_cp_def)

lemma name_b: "lower (basename file_b) = u ''apple_banana.txt''"
  by (simp add: file_b_def u_def lower_def lower_cp_def)

lemma score_a:
  "calculate_relevance index_ab file_a [u ''apple'', u ''banana'', u ''cherry''] = 2"
  using file_info_index_ab(1)
  by (simp add: relevance_sum card_apple card_banana card_cherry name_a) (simp add: u_def)

lemma score_b:
  "calculate_relevance index_ab file_b [u ''apple'', u ''banana'', u ''cherry''] = 6"
  using file_info_index_ab(2)
  by (simp add: relevance_sum card_apple card_banana card_cherry name_b) (simp add: u_def)

lemma search_q:
  "map r_file_path (fst (search sorted_list_of_set (u ''apple banana cherry'') 10 index_ab))
     = [file_b, file_a] \<and>
   map relevance_score (fst (search sorted_list_of_set (u ''apple banana cherry'') 10 index_ab))
     = [6, 2]"
proof -
  obtain fa fb where fa: "file_info index_ab file_a = Some fa"
    and fb: "file_info index_ab file_b = Some fb"
    using file_info_index_ab by auto
  have b: "build_results index_ab [u ''apple'', u ''banana'', u ''cherry''] [file_a, file_b] =
        [make_result index_ab [u ''apple'', u ''banana'', u ''cherry''] file_a fa,
         make_result index_ab [u ''apple'', u ''banana'', u ''cherry''] file_b fb]"
    by (simp add: build_results_def fa fb)
  have t: "tokenize (u ''apple banana cherry'') \<noteq> []" by (simp add: toks_q)
  show ?thesis
    by (simp add: search_eq[OF t] toks_q cand_q b)
       (simp add: make_result_def score_a score_b)
qed







lemma sorted_desc: "sorted (map uminus xs) \<Longrightarrow> sorted (rev xs)" for xs :: "rat list"
  by (induction xs) (auto simp: sorted_append)

lemma search_scores:
  "r \<in> set (fst (search to_list q n idx)) \<Longrightarrow>
   relevance_score r = calculate_relevance idx (r_file_path r) (tokenize q)"
proof -
  assume "r \<in> set (fst (search to_list q n idx))"
  then obtain fi where "r = make_result idx (tokenize q) (r_file_path r) fi"
    using search_results_info by blast
  then have "relevance_score r =
             relevance_score (make_result idx (tokenize q) (r_file_path r) fi)" by simp
  then show ?thesis by (simp add: make_result_def)
qed

lemma search_sorted: "sorted (rev (map relevance_score (fst (search to_list q n idx))))"
proof (cases "tokenize q = []")
  case True
  then show ?thesis by (simp add: search_no_tokens)
next
  case False
  let ?xs = "build_results idx (tokenize q) (candidate_files to_list idx (tokenize q) n)"
  have "sorted (map (\<lambda>r. - relevance_score r) (sort_key (\<lambda>r. - relevance_score r) ?xs))"
    by (rule sorted_sort_key)
  then have "sorted (map uminus (map relevance_score (sort_key (\<lambda>r. - relevance_score r) ?xs)))"
    by (simp add: comp_def)
  then show ?thesis using sorted_desc by (simp add: search_eq[OF False])
qed

text \<open>
  Claim C2, amended. The score of an indexed file is the sum, over the query tokens with
  multiplicity, of 2 for each token that is a substring of the lowercased file name and
  of \<open>1 / frequency\<close> for each token that has postings in the index, the frequency being
  the number of files in its postings set, whether or not this file is one of them. Each
  returned result carries this score, and the results are sorted by descending score.
\<close>

theorem relevance_formula:
  "calculate_relevance idx p toks =
     (if file_info idx p = None then 0
      else (\<Sum>token\<leftarrow>toks. (if contains (lower (basename p)) token then 2 else 0) +
              (if card (postings idx token) > 0 then 1 / of_nat (card (postings idx token)) else 0))) \<and>
   (\<forall>r\<in>set (fst (search to_list q n idx)).
      relevance_score r = calculate_relevance idx (r_file_path r) (tokenize q)) \<and>
   sorted (rev (map relevance_score (fst (search to_list q n idx))))"
  using relevance_sum[of idx p toks] search_scores[of _ to_list q n idx]
    search_sorted[of to_list q n idx] by blast

theorem relevance_formula_witness:
  "calculate_relevance index_ab file_b [u ''apple'', u ''banana'', u ''cherry''] = 2 + 1 / 2 + (2 + 1 / 2) + 1 \<and>
   map relevance_score (fst (search sorted_list_of_set (u ''apple banana cherry'') 10 index_ab)) = [6, 2] \<and>
   sorted (rev (map relevance_score
     (fst (search sorted_list_of_set (u ''apple banana cherry'') 10 index_ab))))"
proof -
  note f = relevance_formula[of index_ab file_b "[u ''apple'', u ''banana'', u ''cherry'']"
      sorted_list_of_set "u ''apple banana cherry''" 10]
  from f have "calculate_relevance index_ab file_b [u ''apple'', u ''banana'', u ''cherry''] =
     (\<Sum>token\<leftarrow>[u ''apple'', u ''banana'', u ''cherry''].
        (if contains (lower (basename file_b)) token then 2 else 0) +
        (if card (postings index_ab token) > 0 then 1 / of_nat (card (postings index_ab token)) else 0))"
    using file_info_index_ab(2) by simp
  then have a: "calculate_relevance index_ab file_b [u ''apple'', u ''banana'', u ''cherry''] =
     2 + 1 / 2 + (2 + 1 / 2) + 1"
    by (simp add: card_apple card_banana card_cherry name_b) (simp add: u_def)
  from f have b: "sorted (rev (map relevance_score
     (fst (search sorted_list_of_set (u ''apple banana cherry'') 10 index_ab))))"
    by blast
  show ?thesis using a b search_q by blast
qed

lemma spec_b_cherry: "spec_relevance index_ab file_b [u ''cherry''] = 0"
proof -
  have fi: "file_info index_ab file_b =
        Some \<lparr>meta = meta0, indexed_time = 2, content_preview = take 200 (u ''date''),
              full_content = u ''date''\<rparr>"
    by (simp add: index_ab_def file_info_add_file)
  have t: "tokenize (u ''date'') = [u ''date'']" by (simp add: tok_eval)
  show ?thesis
    by (simp add: spec_relevance_def fi t name_b) (simp add: u_def)
qed

lemma spec_b_two: "spec_relevance index_ab file_b [u ''apple'', u ''banana''] = 2"
proof -
  have fi: "file_info index_ab file_b =
        Some \<lparr>meta = meta0, indexed_time = 2, content_preview = take 200 (u ''date''),
              full_content = u ''date''\<rparr>"
    by (simp add: index_ab_def file_info_add_file)
  have t: "tokenize (u ''date'') = [u ''date'']" by (simp add: tok_eval)
  show ?thesis
    by (simp add: spec_relevance_def fi t name_b) (simp add: u_def)
qed

text \<open>
  Claim C2 as stated fails. The token \<^verbatim>\<open>cherry\<close> occurs neither in the name nor in the
  content of \<^verbatim>\<open>/d/apple_banana.txt\<close>, yet adds \<open>1 / 1\<close> to its score; and the two tokens
  \<^verbatim>\<open>apple\<close> and \<^verbatim>\<open>banana\<close> of its name add 2 each, not 2 once (the score is 5; the
  formula of the claim gives 2, or 3 if tokens of the file name count as content).
\<close>

theorem relevance_counterexample:
  "calculate_relevance index_ab file_b [u ''cherry''] = 1 \<and>
   u ''cherry'' \<notin> set (tokenize (basename file_b @ [32] @ u ''date'')) \<and>
   spec_relevance index_ab file_b [u ''cherry''] = 0 \<and>
   calculate_relevance index_ab file_b [u ''apple'', u ''banana''] = 5 \<and>
   spec_relevance index_ab file_b [u ''apple'', u ''banana''] = 2"
proof -
  have a: "calculate_relevance index_ab file_b [u ''cherry''] = 1"
    using file_info_index_ab(2)
    by (simp add: relevance_sum card_cherry name_b) (simp add: u_def)
  have b: "calculate_relevance index_ab file_b [u ''apple'', u ''banana''] = 5"
    using file_info_index_ab(2)
    by (simp add: relevance_sum card_apple card_banana name_b) (simp add: u_def)
  have c: "u ''cherry'' \<notin> set (tokenize (basename file_b @ [32] @ u ''date''))"
    by (simp add: tokens_b) (simp add: u_def)
  show ?thesis using a b c spec_b_cherry spec_b_two by blast
qed

text \<open>
  Claim C9. That every path in a postings set has an entry in \<^verbatim>\<open>file_info\<close> holds of the
  empty index and is preserved by \<^verbatim>\<open>add_file\<close>, \<^verbatim>\<open>remove_file\<close> and \<^verbatim>\<open>search\<close>; and
  every result that \<^verbatim>\<open>search\<close> returns is built from the recorded metadata of its file.
\<close>

theorem postings_have_info_preserved:
  assumes "postings_have_info idx"
  shows "postings_have_info empty_index \<and>
         postings_have_info (add_file now p c info idx) \<and>
         postings_have_info (remove_file p idx) \<and>
         postings_have_info (snd (search to_list q n idx)) \<and>
         (\<forall>r\<in>set (fst (search to_list q n idx)).
            \<exists>fi. file_info idx (r_file_path r) = Some fi \<and>
                 r = make_result idx (tokenize q) (r_file_path r) fi)"
proof -
  have "postings_have_info empty_index"
    by (simp add: postings_have_info_def empty_index_def)
  then show ?thesis
    using have_info_add[OF assms] have_info_remove[OF assms] assms search_results_info
    by (simp add: search_state)
qed

theorem postings_have_info_preserved_witness:
  "postings_have_info index_ab \<and>
   postings_have_info (add_file 3 file_a (u ''fig'') meta0 index_ab) \<and>
   postings_have_info (remove_file file_a index_ab) \<and>
   map r_file_path (fst (search sorted_list_of_set (u ''apple banana cherry'') 10 index_ab))
     = [file_b, file_a] \<and>
   (\<exists>fi. file_info index_ab file_b = Some fi) \<and> (\<exists>fi. file_info index_ab file_a = Some fi)"
proof -
  have e: "postings_have_info empty_index"
    by (simp add: postings_have_info_def empty_index_def)
  have h: "postings_have_info index_ab"
    unfolding index_ab_def by (intro have_info_add e)
  from postings_have_info_preserved[OF h, of 3 file_a "u ''fig''" meta0 sorted_list_of_set
      "u ''apple banana cherry''" 10]
  have a: "postings_have_info (add_file 3 file_a (u ''fig'') meta0 index_ab)"
    and b: "postings_have_info (remove_file file_a index_ab)"
    and c: "\<forall>r\<in>set (fst (search sorted_list_of_set (u ''apple banana cherry'') 10 index_ab)).
            \<exists>fi. file_info index_ab (r_file_path r) = Some fi \<and>
                 r = make_result index_ab (tokenize (u ''apple banana cherry'')) (r_file_path r) fi"
    by blast+
  have "\<forall>p\<in>set (map r_file_path
          (fst (search sorted_list_of_set (u ''apple banana cherry'') 10 index_ab))).
          \<exists>fi. file_info index_ab p = Some fi"
    using c by auto
  then have "(\<exists>fi. file_info index_ab file_b = Some fi) \<and> (\<exists>fi. file_info index_ab file_a = Some fi)"
    using search_q by simp
  then show ?thesis using h a b search_q by blast
qed



lemma restore_step_cases:
  "restore_step w now (k, e) (r, st) =
     (if \<not> entry_present w e then (r, st)
      else if entry_changed w e then (r @ [c_full_path e], st)
      else (r, st\<lparr>sindex := add_file now (c_full_path e) (c_content e)
                           \<lparr>file_type = c_type e, file_size_mb = c_size e, supported = True\<rparr>
                           (sindex st),
                  indexed_paths := insert (c_full_path e) (indexed_paths st)\<rparr>))"
  by (simp add: restore_step_def entry_present_def entry_changed_def Let_def)







lemma load_eq:
  assumes "d dir = Some c" "index_version c = u ''1.0''"
  shows "load_index_from_cache w now dir rec st d =
           (True, fst (restore_cached w now (files c) st), new_files_of w dir rec c,
            evict_deleted (deleted_files_of w dir rec c) (snd (restore_cached w now (files c) st)))"
  using assms by (simp add: load_index_from_cache_def Let_def)



lemma file_l_nonempty: "file_l \<noteq> []"
  by (simp add: file_l_def u_def)

lemma hash_l: "get_file_hash world_linked file_l = 100 # 12 # file_l"
  by (simp add: get_file_hash_def world_linked_def)

lemma present_l: "entry_present world_linked entry_l"
  using file_l_nonempty by (simp add: entry_present_def entry_l_def world_linked_def)

lemma unchanged_l: "\<not> entry_changed world_linked entry_l"
  by (simp add: entry_changed_def entry_l_def hash_l)




lemma dir_neq_file: "dir_l \<noteq> file_l"
  by (simp add: dir_l_def file_l_def u_def)

lemma scan_linked: "scan world_linked dir_l True = [file_l]"
  by (simp add: scan_def world_linked_def is_indexable_def)

lemma scan_deleted: "scan world_deleted dir_l True = []"
  by (simp add: scan_def world_deleted_def world_linked_def)

lemma relpath_l: "relpath world_linked file_l dir_l = u ''a.txt''"
  by (simp add: world_linked_def file_l_def dir_l_def u_def)

lemma basename_l: "basename file_l = u ''a.txt''"
  by (simp add: file_l_def u_def)

lemma entry_of_l:
  "cache_entry_of world_linked file_l
     \<lparr>meta = meta0, indexed_time = 10, content_preview = take 200 (u ''apple banana''),
      full_content = u ''apple banana''\<rparr> = entry_l"
  by (simp add: cache_entry_of_def entry_l_def basename_l hash_l meta0_def)

lemma index_files_l:
  "index_files world_linked 10 [file_l] (new_indexer\<lparr>cache_directory := Some dir_l\<rparr>) =
     (Suc 0, indexer_l)"
  by (simp add: index_files_def index_single_file_def Let_def world_linked_def meta0_def
      new_indexer_def indexer_l_def)

lemma save_l: "save_index_to_cache world_linked 10 indexer_l Map.empty = [dir_l \<mapsto> cache_l]"
proof -
  have "set_order world_linked {file_l} = [file_l]" by (simp add: world_linked_def)
  then show ?thesis
    using entry_of_l
    by (simp add: save_index_to_cache_def indexer_l_def save_step_def file_info_add_file
        relpath_l cache_l_def)
qed

lemma first_run:
  "index_directory world_linked 10 dir_l True (new_indexer, Map.empty) =
     (indexer_l, [dir_l \<mapsto> cache_l])"
proof -
  have e: "path_exists world_linked dir_l" by (simp add: world_linked_def)
  have l: "load_index_from_cache world_linked 10 dir_l True
             (new_indexer\<lparr>cache_directory := Some dir_l\<rparr>) Map.empty =
           (False, [], [], new_indexer\<lparr>cache_directory := Some dir_l\<rparr>)"
    by (simp add: load_index_from_cache_def)
  have s: "stop_indexing (new_indexer\<lparr>cache_directory := Some dir_l\<rparr>) = False"
    by (simp add: new_indexer_def)
  show ?thesis
    by (simp add: index_directory_def e l scan_linked index_files_l save_l s Let_def)
qed


lemma index_directory_cached:
  assumes "path_exists w dir" "d dir = Some c" "index_version c = u ''1.0''"
  shows "index_directory w now dir rec (st, d) =
    (let st0 = st\<lparr>cache_directory := Some dir\<rparr>;
         st1 = evict_deleted (deleted_files_of w dir rec c)
                 (snd (restore_cached w now (files c) st0));
         fs = fst (restore_cached w now (files c) st0) @ new_files_of w dir rec c
     in if fs = [] then (st1, save_index_to_cache w now st1 d)
        else (snd (index_files w now fs st1),
              save_index_to_cache w now (snd (index_files w now fs st1)) d))"
proof -
  have l: "load_index_from_cache w now dir rec (st\<lparr>cache_directory := Some dir\<rparr>) d =
           (True, fst (restore_cached w now (files c) (st\<lparr>cache_directory := Some dir\<rparr>)),
            new_files_of w dir rec c,
            evict_deleted (deleted_files_of w dir rec c)
              (snd (restore_cached w now (files c) (st\<lparr>cache_directory := Some dir\<rparr>))))"
    using assms(2,3) by (rule load_eq[of d dir c])
  show ?thesis
    unfolding index_directory_def by (simp only: assms(1) l Let_def fst_conv snd_conv if_True) simp
qed

lemma indexer_l_dir: "indexer_l\<lparr>cache_directory := Some dir_l\<rparr> = indexer_l"
  by (simp add: indexer_l_def)

lemma absent_l: "\<not> entry_present world_deleted entry_l"
  using dir_neq_file
  by (simp add: entry_present_def world_deleted_def entry_l_def)

lemma restore_deleted:
  "restore_cached world_deleted 20 (files cache_l) indexer_l = ([], indexer_l)"
  by (simp add: restore_cached_def cache_l_def restore_step_cases absent_l)

lemma normalize_l: "normalize world_deleted file_l = u ''/data/a.txt''"
  "normalize world_linked file_l = u ''/data/a.txt''"
  by (simp_all add: world_deleted_def world_linked_def)

lemma cached_l:
  "cached_files world_deleted dir_l True cache_l = {u ''/data/a.txt''}"
  "cached_files world_linked dir_l True cache_l = {u ''/data/a.txt''}"
  using file_l_nonempty
  by (simp_all add: cached_files_def cache_l_def normalize_l) (simp_all add: entry_l_def normalize_l)

lemma current_l:
  "current_files world_deleted dir_l True = {}"
  "current_files world_linked dir_l True = {u ''/data/a.txt''}"
  by (simp_all add: current_files_def scan_deleted scan_linked normalize_l)

lemma order_l: "set_order world_deleted = sorted_list_of_set"
  "set_order world_linked = sorted_list_of_set"
  by (simp_all add: world_deleted_def world_linked_def)

lemma new_deleted: "new_files_of world_deleted dir_l True cache_l = []"
  "new_files_of world_linked dir_l True cache_l = []"
  by (simp_all add: new_files_of_def cached_l current_l order_l)

lemma deleted_deleted:
  "deleted_files_of world_deleted dir_l True cache_l = [u ''/data/a.txt'']"
  "deleted_files_of world_linked dir_l True cache_l = []"
  by (simp_all add: deleted_files_of_def cached_l current_l order_l)

lemma not_indexed_normalized: "u ''/data/a.txt'' \<notin> indexed_paths indexer_l"
  by (simp add: indexer_l_def file_l_def u_def)

lemma evict_l: "evict_deleted [u ''/data/a.txt''] indexer_l = indexer_l"
  using not_indexed_normalized by (simp add: evict_deleted_def)

lemma save_deleted:
  "save_index_to_cache world_deleted 20 indexer_l [dir_l \<mapsto> cache_l] =
     [dir_l \<mapsto> cache_l\<lparr>files := [(u ''a.txt'', entry_l\<lparr>c_file_hash := []\<rparr>)],
                         last_indexed := 20\<rparr>]"
proof -
  have r: "relpath world_deleted file_l dir_l = u ''a.txt''"
    using relpath_l by (simp add: world_deleted_def world_linked_def)
  have h: "get_file_hash world_deleted file_l = []"
    by (simp add: get_file_hash_def world_deleted_def)
  have e: "cache_entry_of world_deleted file_l
     \<lparr>meta = meta0, indexed_time = 10, content_preview = take 200 (u ''apple banana''),
      full_content = u ''apple banana''\<rparr> = entry_l\<lparr>c_file_hash := []\<rparr>"
    by (simp add: cache_entry_of_def entry_l_def basename_l h meta0_def)
  show ?thesis
    using e
    by (simp add: save_index_to_cache_def indexer_l_def save_step_def file_info_add_file
        r cache_l_def order_l)
qed

lemma second_run_deleted:
  "index_directory world_deleted 20 dir_l True (indexer_l, [dir_l \<mapsto> cache_l]) =
     (indexer_l, [dir_l \<mapsto> cache_l\<lparr>files := [(u ''a.txt'', entry_l\<lparr>c_file_hash := []\<rparr>)],
                                     last_indexed := 20\<rparr>])"
proof -
  have e: "path_exists world_deleted dir_l" by (simp add: world_deleted_def)
  have d: "[dir_l \<mapsto> cache_l] dir_l = Some cache_l" by simp
  have v: "index_version cache_l = u ''1.0''" by (simp add: cache_l_def)
  show ?thesis
    by (simp add: index_directory_cached[of world_deleted dir_l "[dir_l \<mapsto> cache_l]" cache_l,
          OF e d v] indexer_l_dir restore_deleted new_deleted
        deleted_deleted evict_l save_deleted)
qed


lemma tokens_l:
  "tokenize (basename file_l @ 32 # u ''apple banana'') = [u ''txt'', u ''apple'', u ''banana'']"
  by (simp add: tok_eval file_l_def)

lemma postings_l:
  "postings (sindex indexer_l) t =
     (if t \<in> {} then {file_l} else {}) \<union>
     (if t \<in> set [u ''txt'', u ''apple'', u ''banana''] then {file_l} else {})"
  unfolding indexer_l_def
  by (simp only: indexer.simps postings_add_file postings_empty_index append_Cons append_Nil
      tokens_l) simp

lemma search_l:
  "map r_file_path (fst (search sorted_list_of_set (u ''apple'') 10 (sindex indexer_l))) = [file_l]"
proof -
  have t: "tokenize (u ''apple'') = [u ''apple'']" by (simp add: tok_eval)
  have ne: "tokenize (u ''apple'') \<noteq> []" by (simp add: t)
  have m: "matching_files (sindex indexer_l) (u ''apple'') = {file_l}"
    by (simp add: matching_two[of "sindex indexer_l", OF postings_l]) (simp add: u_def)
  have a: "and_matches (sindex indexer_l) [u ''apple''] = {file_l}"
    by (simp add: and_matches_def m)
  have o: "or_matches (sindex indexer_l) [u ''apple''] = {file_l}"
    by (simp add: or_matches_def m)
  have cand: "candidate_files sorted_list_of_set (sindex indexer_l) [u ''apple''] 10 = [file_l]"
    by (simp add: candidate_files_eq a o slice_to_def)
  have fi: "file_info (sindex indexer_l) file_l \<noteq> None"
    by (simp add: indexer_l_def file_info_add_file)
  have "map r_file_path (fst (search sorted_list_of_set (u ''apple'') 10 (sindex indexer_l))) =
        map r_file_path (sort_key (\<lambda>r. - relevance_score r)
          (build_results (sindex indexer_l) [u ''apple''] [file_l]))"
    by (simp add: search_eq[OF ne] t cand)
  also have "\<dots> = [file_l]"
    using fi by (auto simp: build_results_def make_result_def)
  finally show ?thesis .
qed

text \<open>
  Claim C5 fails on the code. \<^verbatim>\<open>/link/a.txt\<close> is indexed by a first run and then removed
  from disk. The second run finds the deleted file under its normalized path
  \<^verbatim>\<open>/data/a.txt\<close> and looks for that string in \<^verbatim>\<open>indexed_paths\<close>, which holds the path as
  it was indexed, so nothing is evicted: the file stays in \<^verbatim>\<open>indexed_paths\<close>, in
  \<^verbatim>\<open>file_info\<close> and in the postings, the rewritten cache has its entry again, and the
  in-memory \<^verbatim>\<open>search\<close> returns it.
\<close>

theorem deleted_file_stays_indexed:
  "index_directory world_linked 10 dir_l True (new_indexer, Map.empty) =
     (indexer_l, [dir_l \<mapsto> cache_l]) \<and>
   \<not> path_exists world_deleted file_l \<and>
   index_directory world_deleted 20 dir_l True (indexer_l, [dir_l \<mapsto> cache_l]) =
     (indexer_l, [dir_l \<mapsto> cache_l\<lparr>files := [(u ''a.txt'', entry_l\<lparr>c_file_hash := []\<rparr>)],
                                     last_indexed := 20\<rparr>]) \<and>
   file_l \<in> indexed_paths indexer_l \<and>
   file_info (sindex indexer_l) file_l \<noteq> None \<and>
   postings (sindex indexer_l) (u ''apple'') = {file_l} \<and>
   map r_file_path (fst (search sorted_list_of_set (u ''apple'') 10 (sindex indexer_l))) = [file_l]"
proof -
  have a: "\<not> path_exists world_deleted file_l"
    using dir_neq_file by (simp add: world_deleted_def)
  have b: "file_l \<in> indexed_paths indexer_l" by (simp add: indexer_l_def)
  have c: "file_info (sindex indexer_l) file_l \<noteq> None"
    by (simp add: indexer_l_def file_info_add_file)
  have d: "postings (sindex indexer_l) (u ''apple'') = {file_l}"
    by (simp add: postings_l)
  show ?thesis using first_run second_run_deleted a b c d search_l by blast
qed

lemma restore_unchanged_l:
  "restore_cached world_linked 20 (files cache_l) indexer_l =
     ([], indexer_l\<lparr>sindex := add_file 20 file_l (u ''apple banana'') meta0 (sindex indexer_l)\<rparr>)"
proof -
  have m: "\<lparr>file_type = c_type entry_l, file_size_mb = c_size entry_l, supported = True\<rparr> = meta0"
    by (simp add: entry_l_def meta0_def)
  have c: "c_content entry_l = u ''apple banana''" "c_full_path entry_l = file_l"
    by (simp_all add: entry_l_def)
  have i: "insert file_l (indexed_paths indexer_l) = indexed_paths indexer_l"
    by (simp add: indexer_l_def)
  show ?thesis
    by (simp add: restore_cached_def cache_l_def restore_step_cases present_l unchanged_l m c i)
qed

lemma save_unchanged_l:
  "save_index_to_cache world_linked 20
     (indexer_l\<lparr>sindex := add_file 20 file_l (u ''apple banana'') meta0 (sindex indexer_l)\<rparr>)
     [dir_l \<mapsto> cache_l] =
     [dir_l \<mapsto> cache_l\<lparr>files := [(u ''a.txt'', entry_l\<lparr>c_modified := 20\<rparr>)],
                         last_indexed := 20\<rparr>]"
proof -
  have e: "cache_entry_of world_linked file_l
     \<lparr>meta = meta0, indexed_time = 20, content_preview = take 200 (u ''apple banana''),
      full_content = u ''apple banana''\<rparr> = entry_l\<lparr>c_modified := 20\<rparr>"
    by (simp add: cache_entry_of_def entry_l_def basename_l hash_l meta0_def)
  show ?thesis
    using e
    by (simp add: save_index_to_cache_def indexer_l_def save_step_def file_info_add_file
        relpath_l cache_l_def order_l)
qed

lemma second_run_unchanged:
  "index_directory world_linked 20 dir_l True (indexer_l, [dir_l \<mapsto> cache_l]) =
     (indexer_l\<lparr>sindex := add_file 20 file_l (u ''apple banana'') meta0 (sindex indexer_l)\<rparr>,
      [dir_l \<mapsto> cache_l\<lparr>files := [(u ''a.txt'', entry_l\<lparr>c_modified := 20\<rparr>)],
                          last_indexed := 20\<rparr>])"
proof -
  have e: "path_exists world_linked dir_l" by (simp add: world_linked_def)
  have d: "[dir_l \<mapsto> cache_l] dir_l = Some cache_l" by simp
  have v: "index_version cache_l = u ''1.0''" by (simp add: cache_l_def)
  have ev: "evict_deleted [] st = st" for st by (simp add: evict_deleted_def)
  show ?thesis
    by (simp add: index_directory_cached[of world_linked dir_l "[dir_l \<mapsto> cache_l]" cache_l,
          OF e d v] indexer_l_dir restore_unchanged_l new_deleted
        deleted_deleted ev save_unchanged_l)
qed

text \<open>
  Claim C4 as stated fails: the second run over the unchanged directory, at a later time,
  rewrites the cache with a new \<^verbatim>\<open>last_indexed\<close> and a new \<^verbatim>\<open>modified\<close> in the entry of
  the file, so the two cache documents differ.
\<close>

theorem second_run_cache_counterexample:
  "index_directory world_linked 10 dir_l True (new_indexer, Map.empty) =
     (indexer_l, [dir_l \<mapsto> cache_l]) \<and>
   snd (index_directory world_linked 20 dir_l True (indexer_l, [dir_l \<mapsto> cache_l])) dir_l =
     Some (cache_l\<lparr>files := [(u ''a.txt'', entry_l\<lparr>c_modified := 20\<rparr>)], last_indexed := 20\<rparr>) \<and>
   cache_l\<lparr>files := [(u ''a.txt'', entry_l\<lparr>c_modified := 20\<rparr>)], last_indexed := 20\<rparr> \<noteq> cache_l"
proof -
  have "last_indexed (cache_l\<lparr>files := [(u ''a.txt'', entry_l\<lparr>c_modified := 20\<rparr>)],
           last_indexed := 20\<rparr>) \<noteq> last_indexed cache_l"
    by (simp add: cache_l_def)
  then have n: "cache_l\<lparr>files := [(u ''a.txt'', entry_l\<lparr>c_modified := 20\<rparr>)], last_indexed := 20\<rparr>
      \<noteq> cache_l" by metis
  show ?thesis using first_run n by (simp add: second_run_unchanged)
qed

end
